theory Spec2Isabelle
  imports Complex_Main
begin

text \<open>
  A model of \<open>pytorch_translate/research/unsupervised_morphology/morphology_runner.py\<close>,
  the command line runner of the unsupervised morphological segmenter: its options, its
  training block and its segmentation block. The module \<open>unsupervised_morphology\<close>
  that the runner calls is not among the sources; its functions are parameters of the
  blocks, and the Segmentor, the EM loop and saving are also written down from the spec
  where a property is about them. The interactive block of the runner (lines 185 to
  222) is left out: no property here concerns it.
\<close>

section \<open>Python strings\<close>

text \<open>
  A Python \<open>str\<close> is a sequence of Unicode code points, so a string is a list of
  code points (natural numbers). \<open>str\<close> turns an ASCII literal into such a list.
\<close>

type_synonym pystr = "nat list"

definition str :: "string \<Rightarrow> pystr" where
  "str s = map of_char s"

definition LF :: nat where
  "LF = 10"

definition CR :: nat where
  "CR = 13"

definition space :: pystr where
  "space = [32]"

text \<open>
  \<open>str.isspace\<close> for one code point: the set CPython's \<open>str.strip()\<close> and
  \<open>str.split()\<close> use when called with no argument.
\<close>

definition isspace :: "nat \<Rightarrow> bool" where
  "isspace c \<longleftrightarrow>
     c \<in> set [9, 10, 11, 12, 13, 28, 29, 30, 31, 32, 133, 160, 5760,
               8232, 8233, 8239, 8287, 12288]
     \<or> (8192 \<le> c \<and> c \<le> 8202)"

text \<open>\<open>s.strip()\<close>: leading and trailing whitespace removed.\<close>

definition strip :: "pystr \<Rightarrow> pystr" where
  "strip s = rev (dropWhile isspace (rev (dropWhile isspace s)))"

text \<open>
  \<open>s.split()\<close>: skip whitespace, take the run of non-whitespace code points as the next
  word, repeat until the string is used up.
\<close>

function split :: "pystr \<Rightarrow> pystr list" where
  "split s =
     (case dropWhile isspace s of
        [] \<Rightarrow> []
      | c # cs \<Rightarrow>
          takeWhile (\<lambda>x. \<not> isspace x) (c # cs)
            # split (dropWhile (\<lambda>x. \<not> isspace x) (c # cs)))"
  by pat_completeness auto
termination
proof (relation "measure length")
  show "wf (measure length)" by simp
next
  fix s :: pystr and c cs
  assume d: "dropWhile isspace s = c # cs"
  have ns: "\<not> isspace c" using d by (metis hd_dropWhile list.sel(1) list.distinct(1))
  have "length (dropWhile (\<lambda>x. \<not> isspace x) (c # cs)) \<le> length cs"
    using ns by (simp add: length_dropWhile_le)
  also have "\<dots> < length (dropWhile isspace s)" using d by simp
  also have "\<dots> \<le> length s" by (rule length_dropWhile_le)
  finally show "(dropWhile (\<lambda>x. \<not> isspace x) (c # cs), s) \<in> measure length" by simp
qed

declare split.simps [simp del]

text \<open>\<open>sep.join(xs)\<close>.\<close>

fun join :: "pystr \<Rightarrow> pystr list \<Rightarrow> pystr" where
  "join sep [] = []"
| "join sep [x] = x"
| "join sep (x # y # ys) = x @ sep @ join sep (y # ys)"

text \<open>
  Iterating over a text stream opened with the default \<open>newline=None\<close>: the content is
  cut after every line terminator; \<open>\n\<close>, \<open>\r\<close> and \<open>\r\n\<close> all end a line and are
  handed over as \<open>\n\<close>. A last line with no terminator is handed over as it is.
\<close>

fun iter_lines :: "pystr \<Rightarrow> pystr list" where
  "iter_lines [] = []"
| "iter_lines (c # cs) =
     (if c = LF then [LF] # iter_lines cs
      else if c = CR then
        (case cs of
           [] \<Rightarrow> [[LF]]
         | d # ds \<Rightarrow> if d = LF then [LF] # iter_lines ds else [LF] # iter_lines (d # ds))
      else (case iter_lines cs of [] \<Rightarrow> [[c]] | l # ls \<Rightarrow> (c # l) # ls))"


section \<open>Command line options\<close>

text \<open>
  The values \<open>parse_args\<close> returns, one field per \<open>dest\<close> of \<open>get_arg_parser\<close>.
  An option of \<open>type="float"\<close> holds a real number here; the runner only hands these
  values on. A path option is \<open>None\<close> until it is given.
\<close>

record options =
  train_file :: "pystr option"
  model_path :: "pystr option"
  em_iter :: int
  num_cpus :: int
  input_file :: "pystr option"
  output_file :: "pystr option"
  add_affix_symbols :: bool
  save_checkpoint :: bool
  smooth_const :: real
  normal_init :: bool
  normal_mean :: real
  use_hardEM :: bool
  normal_stddev :: real
  use_morph_likeness :: bool
  perplexity_threshold :: real
  length_threshold :: real
  perplexity_slope :: real
  length_slope :: real
  investigate :: bool

text \<open>The \<open>default=\<close> of every \<open>add_option\<close> call of \<open>get_arg_parser\<close>.\<close>

definition get_arg_parser :: options where
  "get_arg_parser =
     \<lparr> train_file = None, model_path = None, em_iter = 30, num_cpus = 10,
       input_file = None, output_file = None, add_affix_symbols = True,
       save_checkpoint = False, smooth_const = 2, normal_init = False,
       normal_mean = 2, use_hardEM = False, normal_stddev = 1,
       use_morph_likeness = True, perplexity_threshold = 10, length_threshold = 3,
       perplexity_slope = 1, length_slope = 2, investigate = False \<rparr>"

text \<open>
  One option as it stands on the command line, after \<open>optparse\<close> has read its name and
  converted its argument: one constructor per \<open>add_option\<close> call, in the order of the
  source.
\<close>

datatype cli_arg =
    TrainFile pystr
  | Model pystr
  | Iter int
  | NumCpu int
  | Input pystr
  | Output pystr
  | NoAffixSymbol
  | SaveCheckpoint
  | SmoothConst real
  | NormalInit
  | NormalMean real
  | HardEm
  | NormalStddev real
  | NoMorphLikeness
  | PerplexityThreshold real
  | LengthThreshold real
  | PerplexitySlope real
  | LengthSlope real
  | Investigate

text \<open>
  The action of each option: \<open>store\<close> keeps the argument, \<open>store_true\<close> and
  \<open>store_false\<close> set the flag.
\<close>

fun process_option :: "options \<Rightarrow> cli_arg \<Rightarrow> options" where
  "process_option opts (TrainFile f) = opts\<lparr>train_file := Some f\<rparr>"
| "process_option opts (Model f) = opts\<lparr>model_path := Some f\<rparr>"
| "process_option opts (Iter n) = opts\<lparr>em_iter := n\<rparr>"
| "process_option opts (NumCpu n) = opts\<lparr>num_cpus := n\<rparr>"
| "process_option opts (Input f) = opts\<lparr>input_file := Some f\<rparr>"
| "process_option opts (Output f) = opts\<lparr>output_file := Some f\<rparr>"
| "process_option opts NoAffixSymbol = opts\<lparr>add_affix_symbols := False\<rparr>"
| "process_option opts SaveCheckpoint = opts\<lparr>save_checkpoint := True\<rparr>"
| "process_option opts (SmoothConst x) = opts\<lparr>smooth_const := x\<rparr>"
| "process_option opts NormalInit = opts\<lparr>normal_init := True\<rparr>"
| "process_option opts (NormalMean x) = opts\<lparr>normal_mean := x\<rparr>"
| "process_option opts HardEm = opts\<lparr>use_hardEM := True\<rparr>"
| "process_option opts (NormalStddev x) = opts\<lparr>normal_stddev := x\<rparr>"
| "process_option opts NoMorphLikeness = opts\<lparr>use_morph_likeness := False\<rparr>"
| "process_option opts (PerplexityThreshold x) = opts\<lparr>perplexity_threshold := x\<rparr>"
| "process_option opts (LengthThreshold x) = opts\<lparr>length_threshold := x\<rparr>"
| "process_option opts (PerplexitySlope x) = opts\<lparr>perplexity_slope := x\<rparr>"
| "process_option opts (LengthSlope x) = opts\<lparr>length_slope := x\<rparr>"
| "process_option opts Investigate = opts\<lparr>investigate := True\<rparr>"

text \<open>\<open>arg_parser.parse_args()\<close>: the defaults, then every given option from left to right.\<close>

definition parse_args :: "cli_arg list \<Rightarrow> options" where
  "parse_args argv = foldl process_option get_arg_parser argv"


section \<open>Errors\<close>

text \<open>
  What the calls into \<open>unsupervised_morphology\<close> can raise: a word refused as
  malformed input, a Parameter Store that cannot be loaded, a failure while training.
  The runner catches nothing, so the first error ends the run.
\<close>

datatype error = InvalidInput | MissingModel | TrainingFailure

section \<open>The training block\<close>

text \<open>The keyword arguments of the \<open>UnsupervisedMorphology\<close> constructor call.\<close>

record trainer_args =
  arg_input_file :: pystr
  arg_smoothing_const :: real
  arg_use_normal_init :: bool
  arg_normal_mean :: real
  arg_normal_stddev :: real
  arg_use_hardEM :: bool
  arg_use_morph_likeness :: bool
  arg_perplexity_threshold :: real
  arg_perplexity_slope :: real
  arg_length_threshold :: real
  arg_length_slope :: real

definition trainer_args_of :: "options \<Rightarrow> pystr \<Rightarrow> trainer_args" where
  "trainer_args_of opts tf =
     \<lparr> arg_input_file = tf,
       arg_smoothing_const = smooth_const opts,
       arg_use_normal_init = normal_init opts,
       arg_normal_mean = normal_mean opts,
       arg_normal_stddev = normal_stddev opts,
       arg_use_hardEM = use_hardEM opts,
       arg_use_morph_likeness = use_morph_likeness opts,
       arg_perplexity_threshold = perplexity_threshold opts,
       arg_perplexity_slope = perplexity_slope opts,
       arg_length_threshold = length_threshold opts,
       arg_length_slope = length_slope opts \<rparr>"

text \<open>
  The state of a training run: the Parameter Store in memory and the serialized stores
  on disk by path. \<open>events\<close> is not in the source: it records what has been done so
  far, one entry per finished EM iteration and per save, oldest first.
\<close>

datatype event = Iteration | Save pystr

record 'p train_state =
  params :: 'p
  disk :: "pystr \<rightharpoonup> 'p"
  events :: "event list"

text \<open>
  Modelled from the spec: \<open>MorphologyHMMParams.save\<close> is not among the sources. The spec
  (4.2) says that \<open>Save(path)\<close> serializes the full table set plus the word-count table
  to durable storage: the store in memory is put on disk under the path.
\<close>

definition save :: "pystr \<Rightarrow> 'p train_state \<Rightarrow> 'p train_state" where
  "save path st = st\<lparr>disk := (disk st)(path \<mapsto> params st), events := events st @ [Save path]\<rparr>"

text \<open>
  Modelled from the spec: \<open>UnsupervisedMorphology.expectation_maximization\<close> is not
  among the sources. The spec (4.3) says that it repeatedly executes one E-step and one
  M-step over the full training corpus, always exactly \<open>num_iterations\<close> full passes,
  persisting the Parameter Store after every iteration if a checkpoint path is supplied.
  One pass (E-step and M-step with the given number of workers) is the parameter
  \<open>em_step\<close>; a failing pass ends the training. A Python \<open>range\<close> over a number
  that is not positive is empty.
\<close>

primrec em_epochs ::
  "('p \<Rightarrow> error + 'p) \<Rightarrow> pystr option \<Rightarrow> nat \<Rightarrow> 'p train_state \<Rightarrow> error + 'p train_state"
where
  "em_epochs step checkpoint 0 st = Inr st"
| "em_epochs step checkpoint (Suc n) st =
     (case step (params st) of
        Inl e \<Rightarrow> Inl e
      | Inr p \<Rightarrow>
          em_epochs step checkpoint n
            (case checkpoint of
               None \<Rightarrow> st\<lparr>params := p, events := events st @ [Iteration]\<rparr>
             | Some path \<Rightarrow> save path (st\<lparr>params := p, events := events st @ [Iteration]\<rparr>)))"

definition expectation_maximization ::
  "(int \<Rightarrow> 'p \<Rightarrow> error + 'p) \<Rightarrow> int \<Rightarrow> int \<Rightarrow> pystr option \<Rightarrow> 'p train_state
     \<Rightarrow> error + 'p train_state"
where
  "expectation_maximization em_step num_iterations num_workers checkpoint st =
     em_epochs (em_step num_workers) checkpoint (nat num_iterations) st"

text \<open>
  Lines 140 to 161 of \<open>morphology_runner.py\<close>. \<open>make_model\<close> is the
  \<open>UnsupervisedMorphology\<close> constructor (it reads the training file and initializes the
  store) and \<open>em_step\<close> one EM pass, both parameters; \<open>old_disk\<close> is the disk before the
  run. The result is \<open>None\<close> when the block is skipped.
\<close>

definition training_block ::
  "(trainer_args \<Rightarrow> error + 'p) \<Rightarrow> (int \<Rightarrow> 'p \<Rightarrow> error + 'p) \<Rightarrow> options
     \<Rightarrow> (pystr \<rightharpoonup> 'p) \<Rightarrow> error + 'p train_state option"
where
  "training_block make_model em_step opts old_disk =
     (if train_file opts \<noteq> None \<and> model_path opts \<noteq> None then
        (case make_model (trainer_args_of opts (the (train_file opts))) of
           Inl e \<Rightarrow> Inl e
         | Inr model \<Rightarrow>
             (case expectation_maximization em_step (em_iter opts) (num_cpus opts)
                     (if save_checkpoint opts then model_path opts else None)
                     \<lparr>params = model, disk = old_disk, events = []\<rparr> of
                Inl e \<Rightarrow> Inl e
              | Inr st \<Rightarrow>
                  Inr (Some (if \<not> save_checkpoint opts then save (the (model_path opts)) st
                             else st))))
      else Inr None)"

section \<open>The segmentation block\<close>

text \<open>
  The state of a segmentation run: \<open>segment_cache\<close> and the strings handed to
  \<open>writer.write\<close>, oldest first. \<open>calls\<close> is not in the source: it records the words
  handed to \<open>segment_word\<close>, oldest first, so that theorems can speak about the calls.
\<close>

record seg_state =
  segment_cache :: "pystr \<rightharpoonup> pystr"
  calls :: "pystr list"
  writer :: "pystr list"

text \<open>
  The inner loop over the words of one line (lines 175 to 181). \<open>segmentor\<close> is
  \<open>segmentor.segment_word\<close>, a parameter.
\<close>

fun segment_words ::
  "(pystr \<Rightarrow> bool \<Rightarrow> error + pystr) \<Rightarrow> bool \<Rightarrow> pystr list \<Rightarrow> pystr list \<Rightarrow> seg_state
     \<Rightarrow> error + (pystr list \<times> seg_state)"
where
  "segment_words segmentor flag [] output st = Inr (output, st)"
| "segment_words segmentor flag (word # ws) output st =
     (case segment_cache st word of
        None \<Rightarrow>
          (case segmentor word flag of
             Inl e \<Rightarrow> Inl e
           | Inr segmented \<Rightarrow>
               segment_words segmentor flag ws (output @ [segmented])
                 (st\<lparr>segment_cache := (segment_cache st)(word \<mapsto> segmented),
                     calls := calls st @ [word]\<rparr>))
      | Some cached \<Rightarrow> segment_words segmentor flag ws (output @ [cached]) st)"

text \<open>The loop over the lines of the input stream (lines 173 to 182).\<close>

fun segment_lines ::
  "(pystr \<Rightarrow> bool \<Rightarrow> error + pystr) \<Rightarrow> bool \<Rightarrow> pystr list \<Rightarrow> seg_state \<Rightarrow> error + seg_state"
where
  "segment_lines segmentor flag [] st = Inr st"
| "segment_lines segmentor flag (line # ls) st =
     (case segment_words segmentor flag (split (strip line)) [] st of
        Inl e \<Rightarrow> Inl e
      | Inr (output, st') \<Rightarrow>
          segment_lines segmentor flag ls
            (st'\<lparr>writer := writer st' @ [join space output @ [LF]]\<rparr>))"

text \<open>
  Lines 163 to 183. \<open>load\<close> is \<open>MorphologyHMMParams.load\<close> and
  \<open>MorphologySegmentor\<close> builds the segmentor of a loaded store, that is its
  \<open>segment_word\<close>; both are parameters. \<open>input\<close> is the decoded content of the input
  file. The result is \<open>None\<close> when the block is skipped.
\<close>

definition segmentation_block ::
  "(pystr \<Rightarrow> error + 'p) \<Rightarrow> ('p \<Rightarrow> pystr \<Rightarrow> bool \<Rightarrow> error + pystr) \<Rightarrow> options \<Rightarrow> pystr
     \<Rightarrow> error + seg_state option"
where
  "segmentation_block load MorphologySegmentor opts input =
     (if input_file opts \<noteq> None \<and> output_file opts \<noteq> None \<and> model_path opts \<noteq> None then
        (case load (the (model_path opts)) of
           Inl e \<Rightarrow> Inl e
         | Inr model \<Rightarrow>
             (case segment_lines (MorphologySegmentor model) (add_affix_symbols opts)
                     (iter_lines input)
                     \<lparr>segment_cache = Map.empty, calls = [], writer = []\<rparr> of
                Inl e \<Rightarrow> Inl e
              | Inr st \<Rightarrow> Inr (Some st)))
      else Inr None)"

text \<open>
  Every word the block hands to the inner loop: the words of every line of the input,
  in order.
\<close>

definition input_words :: "pystr \<Rightarrow> pystr list" where
  "input_words input = concat (map (\<lambda>line. split (strip line)) (iter_lines input))"

text \<open>What the block writes for one line when every word of it is segmented.\<close>

definition output_line :: "(pystr \<Rightarrow> bool \<Rightarrow> error + pystr) \<Rightarrow> bool \<Rightarrow> pystr \<Rightarrow> pystr" where
  "output_line segmentor flag line =
     join space (map (\<lambda>w. projr (segmentor w flag)) (split line)) @ [LF]"

text \<open>
  The invariant of the cache: a word is in the cache exactly when \<open>segment_word\<close> has
  been called on it, no word has been handed to \<open>segment_word\<close> twice, and a cached
  string is the one \<open>segment_word\<close> returns for its word.
\<close>

definition cache_inv :: "(pystr \<Rightarrow> bool \<Rightarrow> error + pystr) \<Rightarrow> bool \<Rightarrow> seg_state \<Rightarrow> bool" where
  "cache_inv segmentor flag st \<longleftrightarrow>
     distinct (calls st) \<and> dom (segment_cache st) = set (calls st) \<and>
     (\<forall>w s. segment_cache st w = Some s \<longrightarrow> segmentor w flag = Inr s)"

section \<open>A small run\<close>

text \<open>
  Collaborators for concrete runs: a loader that always succeeds, and a segmentor that
  refuses the empty word, keeps a one-letter word and splits the first letter off any
  longer word as a prefix.
\<close>

definition demo_load :: "pystr \<Rightarrow> error + unit" where
  "demo_load path = Inr ()"

definition demo_segment_word :: "unit \<Rightarrow> pystr \<Rightarrow> bool \<Rightarrow> error + pystr" where
  "demo_segment_word model word flag =
     (case word of
        [] \<Rightarrow> Inl InvalidInput
      | [c] \<Rightarrow> Inr [c]
      | c # d # cs \<Rightarrow> Inr ([c] @ (if flag then str ''+ '' else space) @ d # cs))"

definition demo_options :: options where
  "demo_options = parse_args [Model (str ''m''), Input (str ''in''), Output (str ''out'')]"

definition demo_input :: pystr where
  "demo_input = str '' un  do'' @ [9, LF, 32, CR, LF] @ str ''do un''"

text \<open>
  Collaborators for concrete training runs: the store is a counter, the constructor
  starts it at 0 and one EM pass adds 1.
\<close>

definition demo_make_model :: "trainer_args \<Rightarrow> error + nat" where
  "demo_make_model args = Inr 0"

definition demo_em_step :: "int \<Rightarrow> nat \<Rightarrow> error + nat" where
  "demo_em_step num_workers p = Inr (Suc p)"

section \<open>The Segmentor, from the spec\<close>

text \<open>
  Modelled from the spec: the module \<open>unsupervised_morphology\<close> with
  \<open>MorphologySegmentor\<close> is not among the sources. The spec (3) gives the morph classes:
  an enumerated tag, one of PREFIX, STEM, SUFFIX.
\<close>

datatype morph_class = PREFIX | STEM | SUFFIX

text \<open>
  Modelled from the spec: a segmentation (3) is an ordered sequence of pairs of a
  substring and a morph class.
\<close>

type_synonym segmentation = "(pystr \<times> morph_class) list"

text \<open>
  Modelled from the spec: the states between which the transition table (3) gives
  probabilities: the start of the word, a morph of some class, the end of the word.
\<close>

datatype hmm_state = START | Morph morph_class | END

text \<open>
  Modelled from the spec: what the Segmentor reads of the Parameter Store (3): the
  probability of emitting a substring in a class (for a substring unseen in training,
  the smoothed floor) and the probability of a transition. Probabilities are real
  numbers here.
\<close>

record hmm_params =
  emission :: "morph_class \<Rightarrow> pystr \<Rightarrow> real"
  transition :: "hmm_state \<Rightarrow> hmm_state \<Rightarrow> real"

text \<open>
  Modelled from the spec: the score of a segmentation (4.4) is the product of the
  emission probabilities of its substrings under their classes and of the transition
  probabilities between consecutive classes.
\<close>

fun score :: "hmm_params \<Rightarrow> hmm_state \<Rightarrow> segmentation \<Rightarrow> real" where
  "score P prev [] = transition P prev END"
| "score P prev ((s, c) # rest) =
     transition P prev (Morph c) * emission P c s * score P (Morph c) rest"

text \<open>
  Modelled from the spec: every way to cut a word at substring boundaries (4.4) into
  non-empty substrings that concatenate to the word; a cut at a smaller index comes
  first.
\<close>

fun partitions :: "pystr \<Rightarrow> pystr list list" where
  "partitions [] = [[]]"
| "partitions [x] = [[[x]]]"
| "partitions (x # y # ys) =
     map (\<lambda>p. [x] # p) (partitions (y # ys))
     @ concat (map (\<lambda>p. case p of [] \<Rightarrow> [] | s # ss \<Rightarrow> [(x # s) # ss]) (partitions (y # ys)))"

text \<open>
  Modelled from the spec: the legal-segmentation grammar (3) tags the substrings of a
  cut word as zero or more prefixes, exactly one stem, zero or more suffixes; \<open>i\<close> is
  the position of the stem.
\<close>

definition label :: "nat \<Rightarrow> pystr list \<Rightarrow> segmentation" where
  "label i p =
     map (\<lambda>s. (s, PREFIX)) (take i p) @ [(p ! i, STEM)] @ map (\<lambda>s. (s, SUFFIX)) (drop (Suc i) p)"

text \<open>
  Modelled from the spec: the legal segmentations of a word (3, 4.4), every cut with
  every position of the stem. The empty word has none.
\<close>

definition legal_segmentations :: "pystr \<Rightarrow> segmentation list" where
  "legal_segmentations word =
     concat (map (\<lambda>p. map (\<lambda>i. label i p) [0..<length p]) (partitions word))"

text \<open>
  Modelled from the spec: the maximum-score candidate (4.4); of candidates with equal
  score the one found first is kept.
\<close>

fun first_best :: "('a \<Rightarrow> real) \<Rightarrow> 'a \<Rightarrow> 'a list \<Rightarrow> 'a" where
  "first_best f best [] = best"
| "first_best f best (x # xs) = first_best f (if f best < f x then x else best) xs"

text \<open>
  Modelled from the spec: Viterbi decoding (4.4) returns the maximum-score legal
  segmentation of the word. The empty word, which has no legal segmentation since the
  grammar requires one non-empty stem, is rejected as malformed input.
\<close>

definition segment_viterbi :: "hmm_params \<Rightarrow> pystr \<Rightarrow> error + segmentation" where
  "segment_viterbi P word =
     (case legal_segmentations word of
        [] \<Rightarrow> Inl InvalidInput
      | c # cs \<Rightarrow> Inr (first_best (score P START) c cs))"

text \<open>
  Modelled from the spec: the separator symbol that marks an affix (4.4). The spec does
  not name it; a plus sign stands for it.
\<close>

definition affix_symbol :: pystr where
  "affix_symbol = str ''+''"

text \<open>
  Modelled from the spec: with \<open>add_affix_symbols\<close> (4.4) an affix is written with the
  separator symbol on the side of the stem, without it as the bare substring.
\<close>

fun render :: "bool \<Rightarrow> pystr \<times> morph_class \<Rightarrow> pystr" where
  "render add_symbols (s, PREFIX) = (if add_symbols then s @ affix_symbol else s)"
| "render add_symbols (s, STEM) = s"
| "render add_symbols (s, SUFFIX) = (if add_symbols then affix_symbol @ s else s)"

text \<open>
  Modelled from the spec: \<open>segment_word(word, add_affix_symbols)\<close> (4.4) returns the
  decoded substrings in order, joined by spaces.
\<close>

definition segment_word :: "hmm_params \<Rightarrow> pystr \<Rightarrow> bool \<Rightarrow> error + pystr" where
  "segment_word P word add_symbols =
     (case segment_viterbi P word of
        Inl e \<Rightarrow> Inl e
      | Inr seg \<Rightarrow> Inr (join space (map (render add_symbols) seg)))"

text \<open>A small store for concrete runs of the Segmentor.\<close>

definition demo_params :: hmm_params where
  "demo_params =
     \<lparr> emission = (\<lambda>c s. if c = PREFIX \<and> s = str ''un'' then 1/2
                          else if c = STEM \<and> s = str ''do'' then 1/2 else 1/100),
       transition = (\<lambda>a b. 1/3) \<rparr>"

section \<open>Properties of \<open>split\<close> and \<open>strip\<close>\<close>

lemma split_Nil:
  assumes "dropWhile isspace s = []"
  shows "split s = []"
  by (subst split.simps) (simp only: assms list.case)

lemma split_Cons:
  assumes "dropWhile isspace s = d" and "d \<noteq> []"
  shows "split s = takeWhile (\<lambda>x. \<not> isspace x) d # split (dropWhile (\<lambda>x. \<not> isspace x) d)"
proof -
  obtain c cs where d: "d = c # cs" using assms(2) by (cases d) auto
  have "dropWhile isspace s = c # cs" using assms(1) d by simp
  then show ?thesis unfolding d by (subst split.simps) (simp only: list.case)
qed

lemma dropWhile_isspace_hd:
  assumes "dropWhile isspace s = c # cs"
  shows "\<not> isspace c"
  using assms by (metis hd_dropWhile list.sel(1) list.distinct(1))

lemma split_whitespace: "\<forall>c\<in>set s. isspace c \<Longrightarrow> split s = []"
  by (rule split_Nil) (simp add: dropWhile_eq_Nil_conv)

lemma split_skip_whitespace:
  assumes "\<forall>c\<in>set g. isspace c"
  shows "split (g @ s) = split s"
proof -
  have eq: "dropWhile isspace (g @ s) = dropWhile isspace s"
    using assms by (simp add: dropWhile_append2)
  show ?thesis
  proof (cases "dropWhile isspace s = []")
    case True
    with eq show ?thesis by (simp add: split_Nil)
  next
    case False
    from split_Cons [OF eq False] split_Cons [OF refl False] show ?thesis by simp
  qed
qed

lemma takeWhile_word_Nil: "s = [] \<or> isspace (hd s) \<Longrightarrow> takeWhile (\<lambda>x. \<not> isspace x) s = []"
  by (cases s) auto

lemma dropWhile_word_id: "s = [] \<or> isspace (hd s) \<Longrightarrow> dropWhile (\<lambda>x. \<not> isspace x) s = s"
  by (cases s) auto

lemma split_word:
  assumes "t \<noteq> []" and "\<forall>c\<in>set t. \<not> isspace c" and "s = [] \<or> isspace (hd s)"
  shows "split (t @ s) = t # split s"
proof -
  have "dropWhile isspace (t @ s) = t @ s" and "t @ s \<noteq> []"
    using assms(1,2) by (cases t; simp)+
  then have "split (t @ s) = takeWhile (\<lambda>x. \<not> isspace x) (t @ s)
      # split (dropWhile (\<lambda>x. \<not> isspace x) (t @ s))"
    by (rule split_Cons)
  moreover have "takeWhile (\<lambda>x. \<not> isspace x) (t @ s) = t"
    using assms(2,3) by (simp add: takeWhile_append2 takeWhile_word_Nil)
  moreover have "dropWhile (\<lambda>x. \<not> isspace x) (t @ s) = s"
    using assms(2,3) by (simp add: dropWhile_append2 dropWhile_word_id)
  ultimately show ?thesis by simp
qed

text \<open>Every word \<open>split\<close> returns is non-empty and free of whitespace.\<close>

lemma split_words:
  "w \<in> set (split s) \<Longrightarrow> w \<noteq> [] \<and> (\<forall>c\<in>set w. \<not> isspace c)"
proof (induction s rule: split.induct)
  case (1 s)
  show ?case
  proof (cases "dropWhile isspace s")
    case Nil
    with "1.prems" show ?thesis by (simp add: split_Nil)
  next
    case (Cons c cs)
    let ?P = "\<lambda>x. \<not> isspace x"
    have ns: "\<not> isspace c" using Cons by (rule dropWhile_isspace_hd)
    have eq: "split s = takeWhile ?P (c # cs) # split (dropWhile ?P (c # cs))"
      using Cons by (rule split_Cons) simp
    from "1.prems" have "w \<in> set (takeWhile ?P (c # cs) # split (dropWhile ?P (c # cs)))"
      by (simp only: eq)
    then have
      "w = takeWhile ?P (c # cs) \<or> w \<in> set (split (dropWhile ?P (c # cs)))"
      by (simp only: list.set insert_iff)
    then show ?thesis
    proof
      assume w: "w = takeWhile ?P (c # cs)"
      then have "w \<noteq> []" using ns by simp
      moreover have "\<forall>c\<in>set w. \<not> isspace c" unfolding w by (auto dest: set_takeWhileD)
      ultimately show ?thesis by simp
    next
      assume "w \<in> set (split (dropWhile ?P (c # cs)))"
      then show ?thesis by (rule "1.IH" [OF Cons])
    qed
  qed
qed

lemma split_append_whitespace:
  "\<forall>c\<in>set b. isspace c \<Longrightarrow> split (a @ b) = split a"
proof (induction a rule: split.induct)
  case (1 s)
  show ?case
  proof (cases "dropWhile isspace s")
    case Nil
    then have "\<forall>c\<in>set s. isspace c" by (simp add: dropWhile_eq_Nil_conv)
    with "1.prems" have "\<forall>c\<in>set (s @ b). isspace c" by auto
    then have "split (s @ b) = []" by (rule split_whitespace)
    moreover have "split s = []" using Nil by (rule split_Nil)
    ultimately show ?thesis by simp
  next
    case (Cons c cs)
    let ?P = "\<lambda>x. \<not> isspace x"
    let ?d = "c # cs"
    have ns: "\<not> isspace c" using Cons by (rule dropWhile_isspace_hd)
    have "c \<in> set (dropWhile isspace s)" by (simp add: Cons)
    then have cin: "c \<in> set s" by (rule set_dropWhileD)
    have "dropWhile isspace (s @ b) = dropWhile isspace s @ b"
      using cin ns by (rule dropWhile_append1)
    then have dw: "dropWhile isspace (s @ b) = ?d @ b" using Cons by simp
    have lhs: "split (s @ b) = takeWhile ?P (?d @ b) # split (dropWhile ?P (?d @ b))"
      using dw by (rule split_Cons) simp
    have rhs: "split s = takeWhile ?P ?d # split (dropWhile ?P ?d)"
      using Cons by (rule split_Cons) simp
    show ?thesis
    proof (cases "\<exists>x\<in>set ?d. isspace x")
      case True
      then obtain x where x: "x \<in> set ?d" "\<not> ?P x" by auto
      have tw: "takeWhile ?P (?d @ b) = takeWhile ?P ?d"
        using x by (rule takeWhile_append1)
      have dr: "dropWhile ?P (?d @ b) = dropWhile ?P ?d @ b"
        using x by (rule dropWhile_append1)
      have "split (dropWhile ?P ?d @ b) = split (dropWhile ?P ?d)"
        using "1.IH" [OF Cons] "1.prems" by simp
      then show ?thesis by (simp only: lhs rhs tw dr)
    next
      case False
      then have all: "\<forall>x\<in>set ?d. ?P x" by blast
      have hb: "b = [] \<or> isspace (hd b)" using "1.prems" by (cases b) auto
      have "takeWhile ?P (?d @ b) = ?d @ takeWhile ?P b"
        by (rule takeWhile_append2) (use all in blast)
      then have tw: "takeWhile ?P (?d @ b) = ?d"
        using hb by (simp only: takeWhile_word_Nil append_Nil2)
      have "dropWhile ?P (?d @ b) = dropWhile ?P b"
        by (rule dropWhile_append2) (use all in blast)
      then have dr: "dropWhile ?P (?d @ b) = b"
        using hb by (simp only: dropWhile_word_id)
      have tw': "takeWhile ?P ?d = ?d" using all by (simp only: takeWhile_eq_all_conv)
      have dr': "dropWhile ?P ?d = []" using all by (simp only: dropWhile_eq_Nil_conv)
      have "split b = []" using "1.prems" by (rule split_whitespace)
      moreover have "split [] = []" by (rule split_Nil) simp
      ultimately show ?thesis by (simp only: lhs rhs tw dr tw' dr')
    qed
  qed
qed

text \<open>Stripping a line before splitting it changes nothing.\<close>

lemma split_strip: "split (strip s) = split s"
proof -
  let ?d = "dropWhile isspace s"
  let ?a = "rev (dropWhile isspace (rev ?d))"
  let ?b = "rev (takeWhile isspace (rev ?d))"
  have d: "?a @ ?b = ?d"
    by (simp only: rev_append [symmetric] takeWhile_dropWhile_id rev_rev_ident)
  have "\<forall>c\<in>set ?b. isspace c" by (auto dest: set_takeWhileD)
  then have "split (?a @ ?b) = split ?a" by (rule split_append_whitespace)
  then have 1: "split ?d = split (strip s)" by (simp only: d strip_def)
  have "\<forall>c\<in>set (takeWhile isspace s). isspace c" by (auto dest: set_takeWhileD)
  then have "split (takeWhile isspace s @ ?d) = split ?d" by (rule split_skip_whitespace)
  then have 2: "split s = split ?d" by simp
  show ?thesis using 1 2 by simp
qed

lemma list_all_tl: "list_all P xs \<Longrightarrow> list_all P (tl xs)"
  by (cases xs) auto

text \<open>
  A line made of words \<open>t\<close>, each after a run \<open>g\<close> of whitespace that only before the
  first word may be empty, and of trailing whitespace, splits into exactly these words.
\<close>

lemma split_spaced:
  assumes "list_all (\<lambda>(g, t). list_all isspace g \<and> t \<noteq> [] \<and> list_all (\<lambda>c. \<not> isspace c) t) gts"
    and "list_all (\<lambda>(g, t). g \<noteq> []) (tl gts)"
    and "list_all isspace trail"
  shows "split (concat (map (\<lambda>(g, t). g @ t) gts) @ trail) = map snd gts"
  using assms(1,2)
proof (induction gts)
  case Nil
  show ?case using assms(3) by (simp add: split_whitespace list_all_iff)
next
  case (Cons gt rest)
  obtain g t where gt: "gt = (g, t)" by (cases gt)
  let ?Y = "concat (map (\<lambda>(g, t). g @ t) rest) @ trail"
  from Cons.prems(1) gt have g: "\<forall>c\<in>set g. isspace c" and t: "t \<noteq> []" "\<forall>c\<in>set t. \<not> isspace c"
    and rest: "list_all (\<lambda>(g, t). list_all isspace g \<and> t \<noteq> [] \<and> list_all (\<lambda>c. \<not> isspace c) t) rest"
    by (simp_all add: list_all_iff)
  from Cons.prems(2) have gaps: "list_all (\<lambda>(g, t). g \<noteq> []) rest" by simp
  have Y: "?Y = [] \<or> isspace (hd ?Y)"
  proof (cases rest)
    case Nil
    then show ?thesis using assms(3) by (cases trail) simp_all
  next
    case (Cons gt' rest')
    obtain g' t' where "gt' = (g', t')" by (cases gt')
    with Cons rest gaps have "g' \<noteq> []" "list_all isspace g'" by simp_all
    then have "hd (g' @ t' @ concat (map (\<lambda>(g, t). g @ t) rest') @ trail) = hd g'" "isspace (hd g')"
      by (cases g'; simp)+
    then show ?thesis using Cons \<open>gt' = (g', t')\<close> by simp
  qed
  have "split (g @ t @ ?Y) = split (t @ ?Y)" using g by (rule split_skip_whitespace)
  also have "\<dots> = t # split ?Y" using t Y by (rule split_word)
  also have "split ?Y = map snd rest" using rest gaps by (intro Cons.IH list_all_tl)
  finally show ?case using gt by simp
qed

text \<open>Every line is of this form.\<close>

lemma every_line_spaced:
  "\<exists>gts trail.
     line = concat (map (\<lambda>(g, t). g @ t) gts) @ trail
     \<and> list_all (\<lambda>(g, t). list_all isspace g \<and> t \<noteq> [] \<and> list_all (\<lambda>c. \<not> isspace c) t) gts
     \<and> list_all (\<lambda>(g, t). g \<noteq> []) (tl gts)
     \<and> list_all isspace trail"
proof (induction line rule: split.induct)
  case (1 s)
  let ?ok = "\<lambda>(g, t). list_all isspace g \<and> t \<noteq> [] \<and> list_all (\<lambda>c. \<not> isspace c) t"
  let ?P = "\<lambda>x. \<not> isspace x"
  show ?case
  proof (cases "dropWhile isspace s")
    case Nil
    then have "list_all isspace s" by (simp add: dropWhile_eq_Nil_conv list_all_iff)
    then have "s = concat (map (\<lambda>(g, t). g @ t) []) @ s \<and> list_all ?ok []
        \<and> list_all (\<lambda>(g, t). g \<noteq> []) (tl []) \<and> list_all isspace s"
      by simp
    then show ?thesis by blast
  next
    case (Cons c cs)
    let ?g = "takeWhile isspace s" and ?t = "takeWhile ?P (c # cs)" and ?r = "dropWhile ?P (c # cs)"
    have ns: "\<not> isspace c" using Cons by (rule dropWhile_isspace_hd)
    from "1.IH" [OF Cons] obtain gts trail where
      r: "?r = concat (map (\<lambda>(g, t). g @ t) gts) @ trail"
      and ok: "list_all ?ok gts"
      and gaps: "list_all (\<lambda>(g, t). g \<noteq> []) (tl gts)"
      and trail: "list_all isspace trail"
      by blast
    have s: "s = ?g @ ?t @ ?r"
      using Cons by (metis takeWhile_dropWhile_id)
    have g: "list_all isspace ?g" by (auto simp: list_all_iff dest: set_takeWhileD)
    have t: "?t \<noteq> []" "list_all ?P ?t"
      using ns by (auto simp: list_all_iff dest: set_takeWhileD)
    have hd_r: "?r = [] \<or> isspace (hd ?r)"
      by (metis (mono_tags, lifting) hd_dropWhile)
    have first: "list_all (\<lambda>(g, t). g \<noteq> []) gts"
    proof (cases gts)
      case Nil
      then show ?thesis by simp
    next
      case (Cons gt rest)
      obtain g' t' where gt: "gt = (g', t')" by (cases gt)
      have "g' \<noteq> []"
      proof
        assume "g' = []"
        with r Cons gt ok have "?r = t' @ concat (map (\<lambda>(g, t). g @ t) rest) @ trail"
          "t' \<noteq> []" "\<not> isspace (hd t')"
          by (cases t'; simp)+
        then have "?r \<noteq> []" "\<not> isspace (hd ?r)" by (cases t'; simp)+
        with hd_r show False by simp
      qed
      with gaps Cons gt show ?thesis by simp
    qed
    have "s = concat (map (\<lambda>(g, t). g @ t) ((?g, ?t) # gts)) @ trail"
      using s r by simp
    moreover have "list_all ?ok ((?g, ?t) # gts)" using g t ok by simp
    moreover have "list_all (\<lambda>(g, t). g \<noteq> []) (tl ((?g, ?t) # gts))" using first by simp
    ultimately show ?thesis using trail by blast
  qed
qed

section \<open>The loops of the segmentation block\<close>

lemma segment_words_total:
  assumes "list_all (\<lambda>w. \<not> isl (segmentor w flag)) ws" and "cache_inv segmentor flag st"
  shows "\<exists>st'. segment_words segmentor flag ws out st
            = Inr (out @ map (\<lambda>w. projr (segmentor w flag)) ws, st')
          \<and> cache_inv segmentor flag st'
          \<and> set (calls st') = set (calls st) \<union> set ws
          \<and> writer st' = writer st"
  using assms
proof (induction ws arbitrary: out st)
  case Nil
  then show ?case by simp
next
  case (Cons word ws)
  from Cons.prems(1) obtain segmented where seg: "segmentor word flag = Inr segmented"
    by (cases "segmentor word flag") auto
  from Cons.prems(1) have rest: "list_all (\<lambda>w. \<not> isl (segmentor w flag)) ws" by simp
  show ?case
  proof (cases "segment_cache st word")
    case None
    let ?st = "st\<lparr>segment_cache := (segment_cache st)(word \<mapsto> segmented),
                  calls := calls st @ [word]\<rparr>"
    have "word \<notin> set (calls st)"
      using None Cons.prems(2) by (auto simp: cache_inv_def)
    then have inv: "cache_inv segmentor flag ?st"
      using Cons.prems(2) seg by (auto simp: cache_inv_def)
    from Cons.IH [OF rest inv, of "out @ [segmented]"] obtain st' where
      "segment_words segmentor flag ws (out @ [segmented]) ?st
         = Inr ((out @ [segmented]) @ map (\<lambda>w. projr (segmentor w flag)) ws, st')"
      "cache_inv segmentor flag st'"
      "set (calls st') = set (calls ?st) \<union> set ws"
      "writer st' = writer ?st"
      by blast
    then show ?thesis using None seg by auto
  next
    case (Some cached)
    then have c: "segmentor word flag = Inr cached"
      using Cons.prems(2) by (simp add: cache_inv_def)
    have "word \<in> set (calls st)"
      using Some Cons.prems(2) by (auto simp: cache_inv_def)
    moreover
    from Cons.IH [OF rest Cons.prems(2), of "out @ [cached]"] obtain st' where
      "segment_words segmentor flag ws (out @ [cached]) st
         = Inr ((out @ [cached]) @ map (\<lambda>w. projr (segmentor w flag)) ws, st')"
      "cache_inv segmentor flag st'"
      "set (calls st') = set (calls st) \<union> set ws"
      "writer st' = writer st"
      by blast
    ultimately show ?thesis using Some c by auto
  qed
qed

lemma segment_lines_total:
  assumes "list_all (\<lambda>w. \<not> isl (segmentor w flag)) (concat (map (\<lambda>line. split (strip line)) ls))"
    and "cache_inv segmentor flag st"
  shows "\<exists>st'. segment_lines segmentor flag ls st = Inr st'
          \<and> cache_inv segmentor flag st'
          \<and> set (calls st') = set (calls st) \<union> set (concat (map (\<lambda>line. split (strip line)) ls))
          \<and> writer st' = writer st @ map (output_line segmentor flag) ls"
  using assms
proof (induction ls arbitrary: st)
  case Nil
  then show ?case by simp
next
  case (Cons line ls)
  let ?ws = "split (strip line)"
  from Cons.prems(1) have here: "list_all (\<lambda>w. \<not> isl (segmentor w flag)) ?ws"
    and rest: "list_all (\<lambda>w. \<not> isl (segmentor w flag)) (concat (map (\<lambda>line. split (strip line)) ls))"
    by simp_all
  from segment_words_total [OF here Cons.prems(2), of "[]"] obtain st1 where
    1: "segment_words segmentor flag ?ws [] st = Inr (map (\<lambda>w. projr (segmentor w flag)) ?ws, st1)"
    and inv1: "cache_inv segmentor flag st1"
    and calls1: "set (calls st1) = set (calls st) \<union> set ?ws"
    and writer1: "writer st1 = writer st"
    by auto
  let ?st = "st1\<lparr>writer := writer st1 @ [join space (map (\<lambda>w. projr (segmentor w flag)) ?ws) @ [LF]]\<rparr>"
  have inv: "cache_inv segmentor flag ?st" using inv1 by (simp add: cache_inv_def)
  from Cons.IH [OF rest inv] obtain st' where
    "segment_lines segmentor flag ls ?st = Inr st'"
    "cache_inv segmentor flag st'"
    "set (calls st') = set (calls ?st) \<union> set (concat (map (\<lambda>line. split (strip line)) ls))"
    "writer st' = writer ?st @ map (output_line segmentor flag) ls"
    by blast
  then show ?case
    using 1 calls1 writer1 by (auto simp: output_line_def split_strip)
qed

lemma cache_inv_init:
  "cache_inv segmentor flag \<lparr>segment_cache = Map.empty, calls = [], writer = []\<rparr>"
  by (simp add: cache_inv_def)

lemma segmentation_block_total:
  assumes "input_file opts = Some inp" and "output_file opts = Some outp"
    and "model_path opts = Some mp" and "load mp = Inr model"
    and "list_all (\<lambda>w. \<not> isl (MorphologySegmentor model w (add_affix_symbols opts))) (input_words input)"
  shows "\<exists>st. segmentation_block load MorphologySegmentor opts input = Inr (Some st)
           \<and> cache_inv (MorphologySegmentor model) (add_affix_symbols opts) st
           \<and> set (calls st) = set (input_words input)
           \<and> writer st = map (output_line (MorphologySegmentor model) (add_affix_symbols opts)) (iter_lines input)"
proof -
  from segment_lines_total [where segmentor = "MorphologySegmentor model"
      and flag = "add_affix_symbols opts" and ls = "iter_lines input",
      OF assms(5) [unfolded input_words_def] cache_inv_init]
  obtain st where
    "segment_lines (MorphologySegmentor model) (add_affix_symbols opts) (iter_lines input)
        \<lparr>segment_cache = Map.empty, calls = [], writer = []\<rparr> = Inr st"
    "cache_inv (MorphologySegmentor model) (add_affix_symbols opts) st"
    "set (calls st) = set (input_words input)"
    "writer st = map (output_line (MorphologySegmentor model) (add_affix_symbols opts)) (iter_lines input)"
    by (auto simp: input_words_def)
  then show ?thesis using assms(1-4) by (simp add: segmentation_block_def)
qed

text \<open>What \<open>segment_word\<close> does on the empty word has no effect on the loops.\<close>

lemma input_words_nonempty: "[] \<notin> set (input_words input)"
  using split_words by (fastforce simp: input_words_def)

lemma segment_words_empty_word_irrelevant:
  "[] \<notin> set ws \<Longrightarrow>
     segment_words (segmentor([] := f)) flag ws out st = segment_words segmentor flag ws out st"
  by (induction ws arbitrary: out st) (auto split: option.splits sum.splits)

lemma segment_lines_empty_word_irrelevant:
  "segment_lines (segmentor([] := f)) flag ls st = segment_lines segmentor flag ls st"
proof (induction ls arbitrary: st)
  case Nil
  show ?case by simp
next
  case (Cons line ls)
  have "[] \<notin> set (split (strip line))" using split_words by blast
  then have eq: "segment_words (segmentor([] := f)) flag (split (strip line)) [] st
      = segment_words segmentor flag (split (strip line)) [] st"
    by (rule segment_words_empty_word_irrelevant)
  show ?case by (simp only: segment_lines.simps eq Cons.IH)
qed

lemma segment_words_calls:
  "segment_words segmentor flag ws out st = Inr (out', st')
     \<Longrightarrow> set (calls st') \<subseteq> set (calls st) \<union> set ws"
proof (induction ws arbitrary: out st)
  case Nil
  then show ?case by simp
next
  case (Cons word ws)
  show ?case
  proof (cases "segment_cache st word")
    case None
    with Cons.prems obtain segmented where
      "segment_words segmentor flag ws (out @ [segmented])
         (st\<lparr>segment_cache := (segment_cache st)(word \<mapsto> segmented), calls := calls st @ [word]\<rparr>)
       = Inr (out', st')"
      by (auto split: sum.splits)
    from Cons.IH [OF this] show ?thesis by auto
  next
    case (Some cached)
    with Cons.prems have "segment_words segmentor flag ws (out @ [cached]) st = Inr (out', st')"
      by simp
    from Cons.IH [OF this] show ?thesis by auto
  qed
qed

lemma segment_lines_calls:
  "segment_lines segmentor flag ls st = Inr st'
     \<Longrightarrow> set (calls st') \<subseteq> set (calls st) \<union> set (concat (map (\<lambda>line. split (strip line)) ls))"
proof (induction ls arbitrary: st)
  case Nil
  then show ?case by simp
next
  case (Cons line ls)
  from Cons.prems obtain out st1 where
    1: "segment_words segmentor flag (split (strip line)) [] st = Inr (out, st1)"
    and 2: "segment_lines segmentor flag ls (st1\<lparr>writer := writer st1 @ [join space out @ [LF]]\<rparr>) = Inr st'"
    by (auto split: sum.splits)
  from segment_words_calls [OF 1] Cons.IH [OF 2] show ?case by auto
qed

text \<open>
  Reading back what was written: when no segmentation string holds a line terminator,
  the written strings are exactly the lines of the output file.
\<close>

lemma iter_lines_terminated:
  "LF \<notin> set l \<Longrightarrow> CR \<notin> set l \<Longrightarrow> iter_lines (l @ LF # rest) = (l @ [LF]) # iter_lines rest"
  by (induction l) auto

lemma iter_lines_concat:
  "list_all (\<lambda>l. LF \<notin> set l \<and> CR \<notin> set l) ls
     \<Longrightarrow> iter_lines (concat (map (\<lambda>l. l @ [LF]) ls)) = map (\<lambda>l. l @ [LF]) ls"
proof (induction ls)
  case Nil
  show ?case by simp
next
  case (Cons l ls)
  then have "LF \<notin> set l" "CR \<notin> set l"
    and IH: "iter_lines (concat (map (\<lambda>l. l @ [LF]) ls)) = map (\<lambda>l. l @ [LF]) ls"
    by simp_all
  from iter_lines_terminated [OF this(1,2), of "concat (map (\<lambda>l. l @ [LF]) ls)"] IH
  show ?case by simp
qed

lemma join_avoids:
  "c \<notin> set sep \<Longrightarrow> list_all (\<lambda>x. c \<notin> set x) xs \<Longrightarrow> c \<notin> set (join sep xs)"
  by (induction sep xs rule: join.induct) auto

lemma output_read_back:
  assumes "list_all (\<lambda>w. LF \<notin> set (projr (segmentor w flag)) \<and> CR \<notin> set (projr (segmentor w flag)))
             (input_words input)"
  shows "iter_lines (concat (map (output_line segmentor flag) (iter_lines input)))
           = map (output_line segmentor flag) (iter_lines input)"
proof -
  let ?body = "\<lambda>line. join space (map (\<lambda>w. projr (segmentor w flag)) (split line))"
  have "LF \<notin> set (?body line) \<and> CR \<notin> set (?body line)" if "line \<in> set (iter_lines input)" for line
  proof -
    have "set (split line) \<subseteq> set (input_words input)"
      using that by (auto simp: input_words_def split_strip)
    with assms have
      "list_all (\<lambda>x. LF \<notin> set x) (map (\<lambda>w. projr (segmentor w flag)) (split line))"
      "list_all (\<lambda>x. CR \<notin> set x) (map (\<lambda>w. projr (segmentor w flag)) (split line))"
      by (auto simp: list_all_iff)
    moreover have "LF \<notin> set space" "CR \<notin> set space" by (simp_all add: LF_def CR_def space_def)
    ultimately show ?thesis by (simp add: join_avoids)
  qed
  then have "list_all (\<lambda>l. LF \<notin> set l \<and> CR \<notin> set l) (map ?body (iter_lines input))"
    by (simp add: list_all_iff)
  moreover have "output_line segmentor flag = (\<lambda>line. ?body line @ [LF])"
    by (rule ext) (simp add: output_line_def)
  ultimately show ?thesis
    using iter_lines_concat [of "map ?body (iter_lines input)"] by (simp add: comp_def)
qed

section \<open>The small run, evaluated\<close>

lemma demo_guards:
  "input_file demo_options = Some (str ''in'')"
  "output_file demo_options = Some (str ''out'')"
  "model_path demo_options = Some (str ''m'')"
  "add_affix_symbols demo_options = True"
  by (simp_all add: demo_options_def parse_args_def get_arg_parser_def)

lemma demo_load_ok: "demo_load (str ''m'') = Inr ()"
  by (simp add: demo_load_def)

lemma demo_lines: "iter_lines demo_input = [str '' un  do'' @ [9, LF], [32, LF], str ''do un'']"
  by (simp add: demo_input_def str_def LF_def CR_def)

lemma demo_words: "input_words demo_input = [str ''un'', str ''do'', str ''do'', str ''un'']"
  unfolding input_words_def demo_lines
  by (simp add: split.simps strip_def str_def isspace_def LF_def)

lemma demo_success:
  "list_all (\<lambda>w. \<not> isl (demo_segment_word () w (add_affix_symbols demo_options)))
     (input_words demo_input)"
  unfolding demo_words by (simp add: demo_segment_word_def str_def)

section \<open>The claims about the segmentation block\<close>

text \<open>
  C2. When the segmentation block runs (input file, output file and model path given,
  the store loads) and \<open>segment_word\<close> returns for every word of the input, the block
  writes exactly one string per line of the input, in the order of the lines, and the
  string written for a line is the segmentation strings of the line's
  whitespace-delimited words, in their order, joined by single spaces and ended by a
  newline. When no segmentation string holds a line terminator, the lines of the output
  file are exactly these strings.
\<close>

theorem segmentation_output_lines:
  assumes "input_file opts = Some inp" and "output_file opts = Some outp"
    and "model_path opts = Some mp" and "load mp = Inr model"
    and "list_all (\<lambda>w. \<not> isl (MorphologySegmentor model w (add_affix_symbols opts))) (input_words input)"
  shows "\<exists>st. segmentation_block load MorphologySegmentor opts input = Inr (Some st)
           \<and> length (writer st) = length (iter_lines input)
           \<and> writer st =
               map (\<lambda>line. join space
                      (map (\<lambda>w. projr (MorphologySegmentor model w (add_affix_symbols opts)))
                         (split line))
                    @ [LF])
                 (iter_lines input)
           \<and> (list_all
                 (\<lambda>w. LF \<notin> set (projr (MorphologySegmentor model w (add_affix_symbols opts)))
                    \<and> CR \<notin> set (projr (MorphologySegmentor model w (add_affix_symbols opts))))
                 (input_words input)
                \<longrightarrow> iter_lines (concat (writer st)) = writer st)"
proof -
  let ?seg = "MorphologySegmentor model" and ?flag = "add_affix_symbols opts"
  from segmentation_block_total [where load = load and MorphologySegmentor = MorphologySegmentor,
      OF assms]
  obtain st where run: "segmentation_block load MorphologySegmentor opts input = Inr (Some st)"
    and writer: "writer st = map (output_line ?seg ?flag) (iter_lines input)"
    by blast
  have reread: "iter_lines (concat (writer st)) = writer st"
    if "list_all (\<lambda>w. LF \<notin> set (projr (?seg w ?flag)) \<and> CR \<notin> set (projr (?seg w ?flag)))
          (input_words input)"
    unfolding writer using that by (rule output_read_back)
  have "map (output_line ?seg ?flag) (iter_lines input)
      = map (\<lambda>line. join space (map (\<lambda>w. projr (?seg w ?flag)) (split line)) @ [LF])
          (iter_lines input)"
    by (simp add: output_line_def)
  with run writer reread show ?thesis by auto
qed

theorem segmentation_output_lines_witness:
  "\<exists>st. segmentation_block demo_load demo_segment_word demo_options demo_input = Inr (Some st)
     \<and> length (writer st) = 3
     \<and> writer st = [str ''u+ n d+ o'' @ [LF], [LF], str ''d+ o u+ n'' @ [LF]]
     \<and> iter_lines (concat (writer st)) = writer st"
proof -
  have "split (str '' un  do'' @ [9, LF]) = [str ''un'', str ''do'']"
    "split [32, LF] = []" "split (str ''do un'') = [str ''do'', str ''un'']"
    by (simp_all add: split.simps str_def isspace_def LF_def)
  moreover have "list_all
      (\<lambda>w. LF \<notin> set (projr (demo_segment_word () w (add_affix_symbols demo_options)))
         \<and> CR \<notin> set (projr (demo_segment_word () w (add_affix_symbols demo_options))))
      (input_words demo_input)"
    unfolding demo_words by (simp add: demo_segment_word_def demo_guards str_def LF_def CR_def)
  ultimately obtain st where
    "segmentation_block demo_load demo_segment_word demo_options demo_input = Inr (Some st)"
    "writer st = [str ''u+ n d+ o'' @ [LF], [LF], str ''d+ o u+ n'' @ [LF]]"
    "iter_lines (concat (writer st)) = writer st"
    using segmentation_output_lines [where load = demo_load
        and MorphologySegmentor = demo_segment_word,
        OF demo_guards(1-3) demo_load_ok demo_success]
    by (auto simp: demo_lines demo_guards demo_segment_word_def str_def space_def)
  then show ?thesis by simp
qed



text \<open>
  C9. The segmentation block never hands the empty string to \<open>segment_word\<close>: no word of
  the input is empty, replacing what \<open>segment_word\<close> does on the empty word by anything
  else (here \<open>f\<close>) leaves the result of the block unchanged, and after a run that
  completes the empty word is not among the recorded calls.
\<close>

theorem empty_word_never_segmented:
  "[] \<notin> set (input_words input)
   \<and> segmentation_block load (\<lambda>model. (MorphologySegmentor model)([] := f)) opts input
       = segmentation_block load MorphologySegmentor opts input
   \<and> (case segmentation_block load MorphologySegmentor opts input of
         Inr (Some st) \<Rightarrow> [] \<notin> set (calls st)
       | _ \<Rightarrow> True)"
proof -
  have 1: "[] \<notin> set (input_words input)" by (rule input_words_nonempty)
  have 2: "segmentation_block load (\<lambda>model. (MorphologySegmentor model)([] := f)) opts input
       = segmentation_block load MorphologySegmentor opts input"
    by (simp add: segmentation_block_def segment_lines_empty_word_irrelevant
        split: sum.splits del: fun_upd_apply)
  have 3: "[] \<notin> set (calls st)"
    if "segmentation_block load MorphologySegmentor opts input = Inr (Some st)" for st
  proof -
    from that obtain model where
      "segment_lines (MorphologySegmentor model) (add_affix_symbols opts) (iter_lines input)
         \<lparr>segment_cache = Map.empty, calls = [], writer = []\<rparr> = Inr st"
      by (auto simp: segmentation_block_def split: if_splits sum.splits)
    from segment_lines_calls [OF this] have "set (calls st) \<subseteq> set (input_words input)"
      by (simp add: input_words_def)
    with 1 show ?thesis by blast
  qed
  from 1 2 3 show ?thesis by (auto split: sum.splits option.splits)
qed

theorem empty_word_never_segmented_witness:
  "[] \<notin> set (input_words demo_input)
   \<and> segmentation_block demo_load (\<lambda>model. (demo_segment_word model)([] := (\<lambda>flag. Inr (str ''?''))))
         demo_options demo_input
       = segmentation_block demo_load demo_segment_word demo_options demo_input
   \<and> (case segmentation_block demo_load demo_segment_word demo_options demo_input of
         Inr (Some st) \<Rightarrow> [] \<notin> set (calls st)
       | _ \<Rightarrow> True)"
  using empty_word_never_segmented [of demo_input demo_load demo_segment_word _ demo_options]
  by simp

text \<open>
  C10. The segmentation block does not preserve the whitespace of its input. Take line
  \<open>i\<close> of the input to be words \<open>t\<close>, each after a whitespace run \<open>g\<close> (of any length
  and of any whitespace characters; only the run before the first word may be empty),
  followed by trailing whitespace (every line is of this form, by
  \<open>every_line_spaced\<close>). Then the string written for the line is the
  segmentation strings of these words joined by single spaces and a newline, whatever
  the runs were; for a line with no word it is the newline alone. One string is written
  for every line.
\<close>

theorem segmentation_normalizes_whitespace:
  assumes "input_file opts = Some inp" and "output_file opts = Some outp"
    and "model_path opts = Some mp" and "load mp = Inr model"
    and "list_all (\<lambda>w. \<not> isl (MorphologySegmentor model w (add_affix_symbols opts))) (input_words input)"
    and "i < length (iter_lines input)"
    and "iter_lines input ! i = concat (map (\<lambda>(g, t). g @ t) gts) @ trail"
    and "list_all (\<lambda>(g, t). list_all isspace g \<and> t \<noteq> [] \<and> list_all (\<lambda>c. \<not> isspace c) t) gts"
    and "list_all (\<lambda>(g, t). g \<noteq> []) (tl gts)"
    and "list_all isspace trail"
  shows "\<exists>st. segmentation_block load MorphologySegmentor opts input = Inr (Some st)
           \<and> length (writer st) = length (iter_lines input)
           \<and> writer st ! i =
               join space
                 (map (\<lambda>t. projr (MorphologySegmentor model t (add_affix_symbols opts))) (map snd gts))
               @ [LF]
           \<and> (gts = [] \<longrightarrow> writer st ! i = [LF])"
proof -
  from segmentation_block_total [where load = load and MorphologySegmentor = MorphologySegmentor, OF assms(1-5)]
  obtain st where run: "segmentation_block load MorphologySegmentor opts input = Inr (Some st)"
    and writer: "writer st = map (output_line (MorphologySegmentor model) (add_affix_symbols opts)) (iter_lines input)"
    by blast
  have words: "split (iter_lines input ! i) = map snd gts"
    unfolding assms(7) using assms(8-10) by (rule split_spaced)
  have "writer st ! i
      = output_line (MorphologySegmentor model) (add_affix_symbols opts) (iter_lines input ! i)"
    unfolding writer using assms(6) by simp
  then have line: "writer st ! i =
      join space (map (\<lambda>t. projr (MorphologySegmentor model t (add_affix_symbols opts))) (map snd gts))
      @ [LF]"
    by (simp only: output_line_def words)
  then have "gts = [] \<longrightarrow> writer st ! i = [LF]" by simp
  with run writer line show ?thesis by simp
qed

theorem segmentation_normalizes_whitespace_witness:
  "\<exists>st. segmentation_block demo_load demo_segment_word demo_options demo_input = Inr (Some st)
     \<and> length (writer st) = length (iter_lines demo_input)
     \<and> iter_lines demo_input ! 0 = str '' un  do'' @ [9, LF]
     \<and> writer st ! 0 = str ''u+ n d+ o'' @ [LF]"
proof -
  let ?gts = "[(str '' '', str ''un''), (str ''  '', str ''do'')]"
  have 0: "0 < length (iter_lines demo_input)" by (simp add: demo_lines)
  have 1: "iter_lines demo_input ! 0 = concat (map (\<lambda>(g, t). g @ t) ?gts) @ [9, LF]"
    by (simp add: demo_lines str_def)
  have 2: "list_all (\<lambda>(g, t). list_all isspace g \<and> t \<noteq> [] \<and> list_all (\<lambda>c. \<not> isspace c) t) ?gts"
    by (simp add: str_def isspace_def)
  have 3: "list_all (\<lambda>(g, t). g \<noteq> []) (tl ?gts)" by (simp add: str_def)
  have 4: "list_all isspace [9, LF]" by (simp add: isspace_def LF_def)
  from segmentation_normalizes_whitespace [where load = demo_load
      and MorphologySegmentor = demo_segment_word, OF demo_guards(1-3) demo_load_ok demo_success 0 1 2 3 4]
  obtain st where
    "segmentation_block demo_load demo_segment_word demo_options demo_input = Inr (Some st)"
    "length (writer st) = length (iter_lines demo_input)"
    "writer st ! 0 = str ''u+ n d+ o'' @ [LF]"
    by (auto simp: demo_guards demo_segment_word_def str_def space_def)
  then show ?thesis by (simp add: demo_lines)
qed

section \<open>The claims about the options\<close>

text \<open>
  C8. The default of \<open>use_hardEM\<close> is false, and after parsing it is true exactly when
  \<open>--hard-em\<close> is among the given options; that value is the \<open>use_hardEM\<close> argument of
  the trainer. So the trainer is built in soft-EM mode unless the caller gives
  \<open>--hard-em\<close>.
\<close>

theorem hard_em_default:
  "use_hardEM get_arg_parser = False
   \<and> use_hardEM (parse_args argv) = (HardEm \<in> set argv)
   \<and> arg_use_hardEM (trainer_args_of (parse_args argv) tf) = (HardEm \<in> set argv)"
proof -
  have "use_hardEM (foldl process_option opts argv) = (use_hardEM opts \<or> HardEm \<in> set argv)" for opts
  proof (induction argv arbitrary: opts)
    case Nil
    show ?case by simp
  next
    case (Cons a argv)
    show ?case by (cases a) (auto simp: Cons.IH)
  qed
  then show ?thesis by (simp add: parse_args_def get_arg_parser_def trainer_args_of_def)
qed

theorem hard_em_default_witness:
  "use_hardEM get_arg_parser = False
   \<and> use_hardEM (parse_args [TrainFile (str ''t''), Model (str ''m''), Iter 5]) = False
   \<and> arg_use_hardEM (trainer_args_of (parse_args [TrainFile (str ''t''), Model (str ''m''), Iter 5]) (str ''t'')) = False
   \<and> arg_use_hardEM (trainer_args_of (parse_args [TrainFile (str ''t''), HardEm, Model (str ''m'')]) (str ''t'')) = True"
  using hard_em_default [of "[TrainFile (str ''t''), Model (str ''m''), Iter 5]" "str ''t''"]
    hard_em_default [of "[TrainFile (str ''t''), HardEm, Model (str ''m'')]" "str ''t''"]
  by simp

section \<open>The claim about the training block\<close>

lemma em_epochs_no_checkpoint:
  assumes "\<forall>p. \<not> isl (step p)"
  shows "\<exists>st'. em_epochs step None n st = Inr st'
           \<and> events st' = events st @ replicate n Iteration \<and> disk st' = disk st"
proof (induction n arbitrary: st)
  case 0
  show ?case by simp
next
  case (Suc n)
  from assms obtain p where p: "step (params st) = Inr p"
    by (cases "step (params st)") (auto dest: spec [of _ "params st"])
  from Suc [of "st\<lparr>params := p, events := events st @ [Iteration]\<rparr>"] p
  show ?case by (auto simp: replicate_app_Cons_same)
qed

lemma em_epochs_checkpoint:
  assumes "\<forall>p. \<not> isl (step p)"
  shows "\<exists>st'. em_epochs step (Some path) n st = Inr st'
           \<and> events st' = events st @ concat (replicate n [Iteration, Save path])
           \<and> disk st' = (if n = 0 then disk st else (disk st)(path \<mapsto> params st'))"
proof (induction n arbitrary: st)
  case 0
  show ?case by simp
next
  case (Suc n)
  from assms obtain p where p: "step (params st) = Inr p"
    by (cases "step (params st)") (auto dest: spec [of _ "params st"])
  let ?st = "save path (st\<lparr>params := p, events := events st @ [Iteration]\<rparr>)"
  from Suc [of ?st] obtain st' where
    "em_epochs step (Some path) n ?st = Inr st'"
    "events st' = events ?st @ concat (replicate n [Iteration, Save path])"
    "disk st' = (if n = 0 then disk ?st else (disk ?st)(path \<mapsto> params st'))"
    by blast
  moreover have "n = 0 \<Longrightarrow> params st' = p" using calculation(1) by (auto simp: save_def)
  ultimately show ?case using p by (auto simp: save_def)
qed

text \<open>
  C7, as stated, fails: with a training file and a model path, \<open>--iter 0\<close> and
  \<open>--save-checkpoint\<close>, the block completes and no store is at the model path. No
  iteration runs, so no checkpoint is written, and the final save is skipped because
  checkpointing is on.
\<close>

theorem training_block_no_store_counterexample:
  "training_block demo_make_model demo_em_step
     (parse_args [TrainFile (str ''t''), Model (str ''m''), Iter 0, SaveCheckpoint]) Map.empty
   = Inr (Some \<lparr>params = 0, disk = Map.empty, events = []\<rparr>)
   \<and> (case training_block demo_make_model demo_em_step
         (parse_args [TrainFile (str ''t''), Model (str ''m''), Iter 0, SaveCheckpoint]) Map.empty of
        Inr (Some st) \<Rightarrow> disk st (str ''m'') = None
      | _ \<Rightarrow> False)"
  by (simp add: training_block_def expectation_maximization_def parse_args_def
      get_arg_parser_def demo_make_model_def)

text \<open>
  C7, amended. When the training block runs (training file and model path given) and
  the constructor and every EM pass return, it runs \<open>max(0, em_iter)\<close> EM iterations.
  With checkpointing off the only save is one final save to the model path, after the
  last iteration. With checkpointing on a save to the model path follows every
  iteration and there is no final save. When checkpointing is off, or at least one
  iteration is configured, the store at the model path afterwards is the store as
  trained.
\<close>

theorem training_block_saves:
  assumes "train_file opts = Some tf" and "model_path opts = Some mp"
    and "make_model (trainer_args_of opts tf) = Inr model"
    and "\<forall>p. \<not> isl (em_step (num_cpus opts) p)"
  shows "\<exists>st. training_block make_model em_step opts old_disk = Inr (Some st)
           \<and> length (filter (\<lambda>e. e = Iteration) (events st)) = nat (em_iter opts)
           \<and> events st =
               (if save_checkpoint opts
                then concat (replicate (nat (em_iter opts)) [Iteration, Save mp])
                else replicate (nat (em_iter opts)) Iteration @ [Save mp])
           \<and> (\<not> save_checkpoint opts \<or> 0 < em_iter opts
                \<longrightarrow> disk st = old_disk(mp \<mapsto> params st))"
proof (cases "save_checkpoint opts")
  case True
  let ?st0 = "\<lparr>params = model, disk = old_disk, events = []\<rparr>"
  from em_epochs_checkpoint [OF assms(4), of mp "nat (em_iter opts)" ?st0]
  obtain st where
    "em_epochs (em_step (num_cpus opts)) (Some mp) (nat (em_iter opts)) ?st0 = Inr st"
    "events st = concat (replicate (nat (em_iter opts)) [Iteration, Save mp])"
    "disk st = (if nat (em_iter opts) = 0 then old_disk else old_disk(mp \<mapsto> params st))"
    by auto
  moreover have "length (filter (\<lambda>e. e = Iteration) (concat (replicate n [Iteration, Save mp]))) = n" for n
    by (induction n) simp_all
  ultimately show ?thesis using True assms(1-3)
    by (auto simp: training_block_def expectation_maximization_def)
next
  case False
  let ?st0 = "\<lparr>params = model, disk = old_disk, events = []\<rparr>"
  from em_epochs_no_checkpoint [OF assms(4), of "nat (em_iter opts)" ?st0]
  obtain st where
    "em_epochs (em_step (num_cpus opts)) None (nat (em_iter opts)) ?st0 = Inr st"
    "events st = replicate (nat (em_iter opts)) Iteration"
    "disk st = old_disk"
    by auto
  then show ?thesis using False assms(1-3)
    by (auto simp: training_block_def expectation_maximization_def save_def)
qed

theorem training_block_saves_witness:
  "\<exists>st. training_block demo_make_model demo_em_step
       (parse_args [TrainFile (str ''t''), Model (str ''m''), Iter 2, SaveCheckpoint]) Map.empty
       = Inr (Some st)
     \<and> events st = [Iteration, Save (str ''m''), Iteration, Save (str ''m'')]
     \<and> params st = 2
     \<and> disk st (str ''m'') = Some 2"
proof -
  let ?opts = "parse_args [TrainFile (str ''t''), Model (str ''m''), Iter 2, SaveCheckpoint]"
  have o: "train_file ?opts = Some (str ''t'')" "model_path ?opts = Some (str ''m'')"
    "em_iter ?opts = 2" "save_checkpoint ?opts = True"
    by (simp_all add: parse_args_def get_arg_parser_def)
  have m: "demo_make_model (trainer_args_of ?opts (str ''t'')) = Inr 0"
    by (simp add: demo_make_model_def)
  have s: "\<forall>p. \<not> isl (demo_em_step (num_cpus ?opts) p)" by (simp add: demo_em_step_def)
  from training_block_saves [where make_model = demo_make_model and em_step = demo_em_step
      and old_disk = Map.empty, OF o(1,2) m s]
  obtain st where st: "training_block demo_make_model demo_em_step ?opts Map.empty = Inr (Some st)"
    "events st = [Iteration, Save (str ''m''), Iteration, Save (str ''m'')]"
    "disk st = [str ''m'' \<mapsto> params st]"
    by (auto simp: o numeral_2_eq_2)
  moreover have "params st = 2"
    using st(1) by (auto simp: training_block_def expectation_maximization_def o m
        demo_em_step_def save_def numeral_2_eq_2)
  ultimately show ?thesis by simp
qed

section \<open>The claims about the Segmentor\<close>

lemma partitions_sound:
  "p \<in> set (partitions w) \<Longrightarrow> concat p = w \<and> [] \<notin> set p"
proof (induction w arbitrary: p rule: partitions.induct)
  case 1
  then show ?case by simp
next
  case (2 x)
  then show ?case by simp
next
  case (3 x y ys)
  from "3.prems" consider
    (cut) q where "q \<in> set (partitions (y # ys))" "p = [x] # q"
  | (grow) s ss where "s # ss \<in> set (partitions (y # ys))" "p = (x # s) # ss"
    by (auto split: list.splits)
  then show ?case
  proof cases
    case cut
    with "3.IH" [of q] show ?thesis by simp
  next
    case grow
    with "3.IH" [of "s # ss"] show ?thesis by simp
  qed
qed

lemma partitions_nonempty: "partitions w \<noteq> []"
  by (induction w rule: partitions.induct) simp_all

lemma partitions_of_word:
  assumes "p \<in> set (partitions w)" and "w \<noteq> []"
  shows "p \<noteq> []"
  using partitions_sound [OF assms(1)] assms(2) by auto

lemma legal_segmentations_sound:
  assumes "seg \<in> set (legal_segmentations word)"
  shows "\<exists>pre stem suf.
           seg = map (\<lambda>s. (s, PREFIX)) pre @ [(stem, STEM)] @ map (\<lambda>s. (s, SUFFIX)) suf
           \<and> concat (pre @ [stem] @ suf) = word \<and> [] \<notin> set (pre @ [stem] @ suf)"
proof -
  from assms obtain p i where p: "p \<in> set (partitions word)" and i: "i < length p"
    and seg: "seg = label i p"
    by (auto simp: legal_segmentations_def)
  have whole: "take i p @ [p ! i] @ drop (Suc i) p = p"
    using i by (simp add: id_take_nth_drop [symmetric])
  from partitions_sound [OF p] have "concat p = word" "[] \<notin> set p" by simp_all
  with whole have "concat (take i p @ [p ! i] @ drop (Suc i) p) = word"
    "[] \<notin> set (take i p @ [p ! i] @ drop (Suc i) p)" by simp_all
  with seg show ?thesis unfolding label_def by blast
qed

lemma legal_segmentations_exist:
  assumes "word \<noteq> []"
  shows "legal_segmentations word \<noteq> []"
proof -
  obtain p where p: "p \<in> set (partitions word)"
    using partitions_nonempty [of word] by (cases "partitions word") auto
  then have "p \<noteq> []" using assms by (rule partitions_of_word)
  then have "label 0 p \<in> set (map (\<lambda>i. label i p) [0..<length p])" by simp
  with p have "label 0 p \<in> set (legal_segmentations word)"
    unfolding legal_segmentations_def by auto
  then show ?thesis by auto
qed

lemma legal_segmentations_empty: "legal_segmentations [] = []"
  by (simp add: legal_segmentations_def)

lemma first_best_member: "first_best f best xs \<in> set (best # xs)"
  by (induction xs arbitrary: best) (auto split: if_splits)

lemma demo_undo: "segment_viterbi demo_params (str ''undo'') = Inr [(str ''un'', PREFIX), (str ''do'', STEM)]"
  by (simp add: segment_viterbi_def legal_segmentations_def label_def demo_params_def str_def upt_rec)

lemma length_concat_pieces: "[] \<notin> set xs \<Longrightarrow> length xs \<le> length (concat xs)"
proof (induction xs)
  case Nil
  show ?case by simp
next
  case (Cons x xs)
  then have "x \<noteq> []" and "length xs \<le> length (concat xs)" by auto
  then show ?case by (cases x) simp_all
qed

text \<open>
  C1. For every non-empty word and every store, decoding returns a segmentation made of
  zero or more PREFIX substrings, then exactly one STEM substring, then zero or more
  SUFFIX substrings; the substrings are non-empty and their concatenation is the word;
  \<open>segment_word\<close> returns these substrings, rendered and joined by spaces. A word of one
  character gets the stem alone.
\<close>

theorem segment_word_legal:
  assumes "word \<noteq> []"
  shows "\<exists>pre stem suf.
           segment_viterbi P word
             = Inr (map (\<lambda>s. (s, PREFIX)) pre @ [(stem, STEM)] @ map (\<lambda>s. (s, SUFFIX)) suf)
           \<and> concat (pre @ [stem] @ suf) = word
           \<and> [] \<notin> set (pre @ [stem] @ suf)
           \<and> segment_word P word add_symbols
               = Inr (join space
                        (map (render add_symbols)
                           (map (\<lambda>s. (s, PREFIX)) pre @ [(stem, STEM)]
                            @ map (\<lambda>s. (s, SUFFIX)) suf)))
           \<and> (length word = 1 \<longrightarrow> pre = [] \<and> suf = [] \<and> stem = word)"
proof -
  from legal_segmentations_exist [OF assms] obtain c cs where
    cs: "legal_segmentations word = c # cs" by (cases "legal_segmentations word") auto
  let ?best = "first_best (score P START) c cs"
  have v: "segment_viterbi P word = Inr ?best" by (simp add: segment_viterbi_def cs)
  have "?best \<in> set (legal_segmentations word)" unfolding cs by (rule first_best_member)
  from legal_segmentations_sound [OF this] obtain pre stem suf where
    best: "?best = map (\<lambda>s. (s, PREFIX)) pre @ [(stem, STEM)] @ map (\<lambda>s. (s, SUFFIX)) suf"
    and whole: "concat (pre @ [stem] @ suf) = word"
    and pieces: "[] \<notin> set (pre @ [stem] @ suf)"
    by blast
  have single: "pre = [] \<and> suf = [] \<and> stem = word" if "length word = 1"
  proof -
    have "length (pre @ [stem] @ suf) \<le> length (concat (pre @ [stem] @ suf))"
      using pieces by (rule length_concat_pieces)
    then have "length (pre @ [stem] @ suf) \<le> 1" by (simp only: whole that)
    then have "pre = []" "suf = []" by simp_all
    with whole show ?thesis by simp
  qed
  from v best whole pieces single show ?thesis
    by (auto simp: segment_word_def)
qed

theorem segment_word_legal_witness:
  "str ''undo'' \<noteq> []
   \<and> (\<exists>pre stem suf.
         segment_viterbi demo_params (str ''undo'')
           = Inr (map (\<lambda>s. (s, PREFIX)) pre @ [(stem, STEM)] @ map (\<lambda>s. (s, SUFFIX)) suf)
         \<and> concat (pre @ [stem] @ suf) = str ''undo''
         \<and> [] \<notin> set (pre @ [stem] @ suf))
   \<and> segment_viterbi demo_params (str ''undo'') = Inr [(str ''un'', PREFIX), (str ''do'', STEM)]"
proof -
  have h: "str ''undo'' \<noteq> []" by (simp add: str_def)
  from segment_word_legal [OF h, of demo_params True] h demo_undo show ?thesis by blast
qed

text \<open>
  C6. \<open>segment_word\<close> on the empty string fails with the invalid-input error, for every
  store and either value of the flag, and so does decoding; the empty word is the only
  word refused, so nothing is returned for it.
\<close>

theorem segment_word_rejects_empty:
  "segment_word P [] add_symbols = Inl InvalidInput
   \<and> segment_viterbi P [] = Inl InvalidInput
   \<and> isl (segment_word P word add_symbols) = (word = [])"
proof -
  have 1: "segment_word P [] add_symbols = Inl InvalidInput"
    "segment_viterbi P [] = Inl InvalidInput"
    by (simp_all add: segment_word_def segment_viterbi_def legal_segmentations_empty)
  have "\<not> isl (segment_word P word add_symbols)" if "word \<noteq> []"
    using legal_segmentations_exist [OF that]
    by (cases "legal_segmentations word") (simp_all add: segment_word_def segment_viterbi_def)
  with 1 show ?thesis by auto
qed

theorem segment_word_rejects_empty_witness:
  "segment_word demo_params [] True = Inl InvalidInput
   \<and> segment_viterbi demo_params [] = Inl InvalidInput
   \<and> isl (segment_word demo_params (str ''undo'') True) = (str ''undo'' = [])"
  using segment_word_rejects_empty [of demo_params True "str ''undo''"] by simp

end
